theory Spec2Isabelle
  imports Main
begin

section \<open>The platform: directory, Python primitives, shell\<close>

text \<open>
  The script \<^verbatim>\<open>gen_test_output.py\<close> touches the world in three places:
  \<^verbatim>\<open>listdir\<close>, \<^verbatim>\<open>isfile\<close> and \<^verbatim>\<open>system\<close>, all on the directory \<^verbatim>\<open>tests\<close>
  of the working directory. The state is that one directory entry and the contents of
  the regular files its names lead to, together with three logs that only grow: the
  command lines handed to \<^verbatim>\<open>os.system\<close>, the files the shell opened for output, and
  the processes it started.

  A name of the directory leads to one of three things, symbolic links being followed:
  \<^item> \<open>Reg i\<close>, the regular file numbered \<open>i\<close>. Two names with one number are two names
    of one file: hard links of each other, or symbolic links that end at the same file.
  \<^item> \<open>Subdir\<close>, a directory.
  \<^item> \<open>Other\<close>, anything else: a FIFO, a device, a socket, a symbolic link that ends
    at one of these or at nothing.
\<close>

datatype entry = Reg nat | Subdir | Other

datatype tdir = Missing | NotDir | Listing "(string \<times> entry) list"

record invocation =
  argv :: "string list"
  stdout_to :: string
  status :: nat
  captured :: string

record world =
  tests :: tdir
  content :: "nat \<Rightarrow> string"
  calls :: "string list"
  opened :: "(string \<times> string) list"
  invoked :: "invocation list"

datatype error = FileNotFoundError | NotADirectoryError

text \<open>
  The external program: from its arguments, and the directory and the file contents as
  they are when the process starts, an exit status and what it writes on standard
  output. The program is taken to end, and to touch the directory through its standard
  output only. Where a program is optional, \<open>None\<close> is a machine on which no
  \<^verbatim>\<open>krun\<close> is on the search path.
\<close>

type_synonym program = "string list \<Rightarrow> (string \<times> entry) list \<Rightarrow> (nat \<Rightarrow> string) \<Rightarrow> nat \<times> string"

subsection \<open>Strings\<close>

text \<open>Python's \<^verbatim>\<open>sub in s\<close> on strings: \<open>sub\<close> occurs contiguously in \<open>s\<close>.\<close>

fun starts_with :: "string \<Rightarrow> string \<Rightarrow> bool" where
  "starts_with [] s = True"
| "starts_with (p # ps) [] = False"
| "starts_with (p # ps) (c # cs) = (p = c \<and> starts_with ps cs)"

fun contains :: "string \<Rightarrow> string \<Rightarrow> bool" where
  "contains sub [] = (sub = [])"
| "contains sub (c # cs) = (starts_with sub (c # cs) \<or> contains sub cs)"

text \<open>\<^verbatim>\<open>os.path.join\<close> (posixpath) on two components.\<close>

definition join :: "string \<Rightarrow> string \<Rightarrow> string" where
  "join a b =
     (if starts_with ''/'' b then b
      else if a = [] \<or> last a = CHR ''/'' then a @ b
      else a @ ''/'' @ b)"

subsection \<open>Paths below the directory\<close>

text \<open>The name a path \<^verbatim>\<open>tests/n\<close> refers to; \<open>None\<close> for any other path.\<close>

definition under_tests :: "string \<Rightarrow> string option" where
  "under_tests p = (if starts_with ''tests/'' p then Some (drop 6 p) else None)"

text \<open>
  What a name resolves to in a listing. The empty name and the dot entries are the
  directory itself and its parent, which \<^verbatim>\<open>listdir\<close> never returns. Nothing but
  \<^verbatim>\<open>tests\<close> is in the world: any other path is a path that does not exist.
\<close>

definition lookup :: "(string \<times> entry) list \<Rightarrow> string \<Rightarrow> entry option" where
  "lookup es n = (if n = [] \<or> n = ''.'' \<or> n = ''..'' then Some Subdir else map_of es n)"

definition listdir :: "world \<Rightarrow> string \<Rightarrow> error + string list" where
  "listdir w p =
     (if p = ''tests'' then
        (case tests w of
           Missing \<Rightarrow> Inl FileNotFoundError
         | NotDir \<Rightarrow> Inl NotADirectoryError
         | Listing es \<Rightarrow> Inr (map fst es))
      else Inl FileNotFoundError)"

definition isfile :: "world \<Rightarrow> string \<Rightarrow> bool" where
  "isfile w p =
     (case tests w of
        Listing es \<Rightarrow>
          (case under_tests p of
             Some n \<Rightarrow> (case lookup es n of Some (Reg i) \<Rightarrow> True | _ \<Rightarrow> False)
           | None \<Rightarrow> False)
      | _ \<Rightarrow> False)"

subsection \<open>The shell\<close>

text \<open>
  \<^verbatim>\<open>os.system(line)\<close> runs \<^verbatim>\<open>sh -c line\<close>. The fragment of the shell language that
  is given a meaning here is the simple command with one output redirection: words of
  inert characters separated by spaces, one of the words being \<^verbatim>\<open>>\<close>. In such a line
  the word after \<^verbatim>\<open>>\<close> is the file standard output goes to, and all the other words,
  before and after, are the command and its arguments. What the shell does with every
  other line is the parameter \<open>beyond\<close> of \<open>system\<close>.
\<close>

definition safe_char :: "char \<Rightarrow> bool" where
  "safe_char c =
     (c \<in> set ''abcdefghijklmnopqrstuvwxyzABCDEFGHIJKLMNOPQRSTUVWXYZ0123456789._-+,:@%='')"

definition plain :: "char \<Rightarrow> bool" where
  "plain c = (safe_char c \<or> c = CHR ''/'')"

fun split_acc :: "string \<Rightarrow> string \<Rightarrow> string list" where
  "split_acc acc [] = (if acc = [] then [] else [acc])"
| "split_acc acc (c # cs) =
     (if c = CHR '' '' then (if acc = [] then [] else [acc]) @ split_acc [] cs
      else split_acc (acc @ [c]) cs)"

definition tokens :: "string \<Rightarrow> string list" where
  "tokens l = split_acc [] l"

definition sh_parse :: "string \<Rightarrow> (string list \<times> string) option" where
  "sh_parse l =
     (let ws = tokens l in
      if list_all (\<lambda>c. plain c \<or> c = CHR '' '' \<or> c = CHR ''>'') l
         \<and> list_all (\<lambda>w. CHR ''>'' \<in> set w \<longrightarrow> w = ''>'') ws
      then
        (case dropWhile (\<lambda>w. w \<noteq> ''>'') ws of
           gt # tgt # rest \<Rightarrow>
             if ''>'' \<in> set rest then None
             else Some (takeWhile (\<lambda>w. w \<noteq> ''>'') ws @ rest, tgt)
         | _ \<Rightarrow> None)
      else None)"

text \<open>
  Opening a name of the directory for output gives the file that will be written and
  the listing afterwards: the file the name leads to, or a new file under that name,
  with a number no name of the directory has.
\<close>

fun next_ino :: "(string \<times> entry) list \<Rightarrow> nat" where
  "next_ino [] = 0"
| "next_ino ((n, Reg i) # es) = max (Suc i) (next_ino es)"
| "next_ino ((n, Subdir) # es) = next_ino es"
| "next_ino ((n, Other) # es) = next_ino es"

definition slot :: "(string \<times> entry) list \<Rightarrow> string \<Rightarrow> nat \<times> (string \<times> entry) list" where
  "slot es n =
     (case lookup es n of
        Some (Reg i) \<Rightarrow> (i, es)
      | _ \<Rightarrow> (next_ino es, es @ [(n, Reg (next_ino es))]))"

text \<open>
  A command whose output file is open: the file is emptied first. When the program is
  there it is started, seeing the file empty, and what it writes becomes the content of
  the file; its status is the shell's. When it is not there nothing is started, the
  file stays empty and the status is 127.
\<close>

definition run_redirected ::
  "program option \<Rightarrow> string \<Rightarrow> string list \<Rightarrow> string \<Rightarrow>
     nat \<times> (string \<times> entry) list \<Rightarrow> world \<Rightarrow> nat \<times> world" where
  "run_redirected krun l av tgt sl w =
     (let (i, es1) = sl;
          c0 = (content w)(i := []);
          w0 = w\<lparr>tests := Listing es1, content := c0, opened := opened w @ [(l, tgt)]\<rparr>
      in case krun of
           None \<Rightarrow> (127, w0)
         | Some k \<Rightarrow>
             (let (st, out) = k (tl av) es1 c0
              in (st, w0\<lparr>content := c0(i := out),
                        invoked := invoked w @
                          [\<lparr>argv = av, stdout_to = tgt, status = st, captured = out\<rparr>]\<rparr>)))"

text \<open>
  The redirection of a command \<^verbatim>\<open>krun\<close> to a path below \<^verbatim>\<open>tests\<close>. It fails, with
  nothing started and a non-zero status (its value differs between shells; the script
  never reads it), when the path is a directory or \<^verbatim>\<open>tests\<close> is not one. It is
  \<open>None\<close>, not described here, for any other command or path, and when the path
  leads to something that is neither a regular file nor a directory. The directory and
  its files are taken to be writable.
\<close>

definition redirected ::
  "program option \<Rightarrow> string \<Rightarrow> string list \<Rightarrow> string \<Rightarrow> world \<Rightarrow> (nat \<times> world) option" where
  "redirected krun l av tgt w =
     (case under_tests tgt of
        Some n \<Rightarrow>
          if take 1 av = [''krun''] \<and> CHR ''/'' \<notin> set n then
            (case tests w of
               Listing es \<Rightarrow>
                 (case lookup es n of
                    Some Subdir \<Rightarrow> Some (1, w)
                  | Some Other \<Rightarrow> None
                  | _ \<Rightarrow> Some (run_redirected krun l av tgt (slot es n) w))
             | _ \<Rightarrow> Some (1, w))
          else None
      | None \<Rightarrow> None)"

text \<open>The command line is logged whatever the shell made of it.\<close>

definition system ::
  "program option \<Rightarrow> (string \<Rightarrow> world \<Rightarrow> nat \<times> world) \<Rightarrow> string \<Rightarrow> world \<Rightarrow> nat \<times> world" where
  "system krun beyond l w =
     (let (st, w') =
        (case sh_parse l of
           Some (av, tgt) \<Rightarrow>
             (case redirected krun l av tgt w of
                Some r \<Rightarrow> r
              | None \<Rightarrow> beyond l w)
         | None \<Rightarrow> beyond l w)
      in (st, w'\<lparr>calls := calls w @ [l]\<rparr>))"

section \<open>The script\<close>

text \<open>
  \<^verbatim>\<open>
  TEST_DIR = 'tests'
  files = [f for f in listdir(TEST_DIR) if isfile(join(TEST_DIR,f)) and not '.out' in f]
  for file in files:
      file = '%s/%s' % (TEST_DIR, file)
      system('krun --search %s > %s.out' % (file, file))
  \<close>
\<close>

definition TEST_DIR :: string where
  "TEST_DIR = ''tests''"

definition files :: "world \<Rightarrow> error + string list" where
  "files w =
     (case listdir w TEST_DIR of
        Inl e \<Rightarrow> Inl e
      | Inr names \<Rightarrow> Inr (filter (\<lambda>f. isfile w (join TEST_DIR f) \<and> \<not> contains ''.out'' f) names))"

definition command :: "string \<Rightarrow> string" where
  "command file = ''krun --search '' @ file @ '' > '' @ file @ ''.out''"

fun for_loop ::
  "program option \<Rightarrow> (string \<Rightarrow> world \<Rightarrow> nat \<times> world) \<Rightarrow> string list \<Rightarrow> world \<Rightarrow> world" where
  "for_loop krun beyond [] w = w"
| "for_loop krun beyond (f # fs) w =
     (let file = TEST_DIR @ ''/'' @ f;
          (st, w') = system krun beyond (command file) w
      in for_loop krun beyond fs w')"

definition script ::
  "program option \<Rightarrow> (string \<Rightarrow> world \<Rightarrow> nat \<times> world) \<Rightarrow> world \<Rightarrow> (error + unit) \<times> world" where
  "script krun beyond w =
     (case files w of
        Inl e \<Rightarrow> (Inl e, w)
      | Inr fs \<Rightarrow> (Inr (), for_loop krun beyond fs w))"

section \<open>Vocabulary of the statements\<close>

text \<open>The command line the loop builds for the directory entry \<open>f\<close>.\<close>

definition line :: "string \<Rightarrow> string" where
  "line f = command (TEST_DIR @ ''/'' @ f)"

text \<open>The command lines handed to \<^verbatim>\<open>os.system\<close> during one run, in order.\<close>

definition issued :: "program option \<Rightarrow> (string \<Rightarrow> world \<Rightarrow> nat \<times> world) \<Rightarrow> world \<Rightarrow> string list" where
  "issued krun beyond w = drop (length (calls w)) (calls (snd (script krun beyond w)))"

text \<open>
  Names whose command line stays inside the fragment of the shell that \<open>system\<close>
  gives a meaning to: inert characters and spaces.
\<close>

definition in_fragment :: "string \<Rightarrow> bool" where
  "in_fragment f = list_all (\<lambda>c. safe_char c \<or> c = CHR '' '') f"

text \<open>
  For such a name, the entry the shell opens for standard output, and the arguments the
  program is started with.
\<close>

definition target_name :: "string \<Rightarrow> string" where
  "target_name f = takeWhile (\<lambda>c. c \<noteq> CHR '' '') (f @ ''.out'')"

definition args_of :: "string \<Rightarrow> string list" where
  "args_of f =
     ''--search'' # tokens (''tests/'' @ f) @ tokens (dropWhile (\<lambda>c. c \<noteq> CHR '' '') (f @ ''.out''))"

text \<open>
  The run stays inside the fragment when no path the shell opens for output leads to
  something that is neither a regular file nor a directory (\<open>clear\<close>). A path can be
  written when it is absent or leads to a regular file (\<open>writable\<close>); it is written
  by this name alone when moreover the file has no other name in the directory
  (\<open>sole\<close>). In a \<open>settled\<close> directory every name leads to a regular file or to a
  directory: there is no FIFO, device or socket in it and no symbolic link that ends at
  one of these or at nothing, so that what a name leads to does not change when another
  name is created.
\<close>

definition clear :: "string list \<Rightarrow> (string \<times> entry) list \<Rightarrow> bool" where
  "clear fs es = list_all (\<lambda>g. lookup es (target_name g) \<noteq> Some Other) fs"

definition writable :: "(string \<times> entry) list \<Rightarrow> string \<Rightarrow> bool" where
  "writable es n = (lookup es n \<noteq> Some Subdir \<and> lookup es n \<noteq> Some Other)"

definition sole :: "(string \<times> entry) list \<Rightarrow> string \<Rightarrow> bool" where
  "sole es n =
     (case lookup es n of
        None \<Rightarrow> True
      | Some (Reg i) \<Rightarrow> list_all (\<lambda>(k, e). e = Reg i \<longrightarrow> k = n) es
      | _ \<Rightarrow> False)"





definition step :: "program option \<Rightarrow> string \<Rightarrow> world \<Rightarrow> world" where
  "step krun g w =
     (case tests w of
        Listing es \<Rightarrow>
          if lookup es (target_name g) = Some Subdir then w\<lparr>calls := calls w @ [line g]\<rparr>
          else (snd (run_redirected krun (line g) (''krun'' # args_of g) (''tests/'' @ target_name g)
                      (slot es (target_name g)) w))\<lparr>calls := calls w @ [line g]\<rparr>
      | _ \<Rightarrow> w)"

definition written :: "program option \<Rightarrow> string \<Rightarrow> (string \<times> entry) list \<Rightarrow> (nat \<Rightarrow> string) \<Rightarrow> string" where
  "written krun g es c =
     (case krun of
        None \<Rightarrow> []
      | Some k \<Rightarrow> snd (k (args_of g) (snd (slot es (target_name g)))
                         (c(fst (slot es (target_name g)) := []))))"

definition started :: "program option \<Rightarrow> string \<Rightarrow> (string \<times> entry) list \<Rightarrow> (nat \<Rightarrow> string) \<Rightarrow> invocation list" where
  "started krun g es c =
     (case krun of
        None \<Rightarrow> []
      | Some k \<Rightarrow>
          [\<lparr>argv = ''krun'' # args_of g, stdout_to = ''tests/'' @ target_name g,
            status = fst (k (args_of g) (snd (slot es (target_name g)))
                            (c(fst (slot es (target_name g)) := []))),
            captured = snd (k (args_of g) (snd (slot es (target_name g)))
                            (c(fst (slot es (target_name g)) := [])))\<rparr>])"

definition grown :: "string \<Rightarrow> (string \<times> entry) list \<Rightarrow> (string \<times> entry) list" where
  "grown g es = (if lookup es (target_name g) = Some Subdir then es else snd (slot es (target_name g)))"

fun grow :: "string list \<Rightarrow> (string \<times> entry) list \<Rightarrow> (string \<times> entry) list" where
  "grow [] es = es"
| "grow (g # gs) es = grow gs (grown g es)"

fun steps :: "program option \<Rightarrow> string list \<Rightarrow> world \<Rightarrow> world" where
  "steps krun [] w = w"
| "steps krun (g # gs) w = steps krun gs (step krun g w)"

subsection \<open>Concrete instances\<close>

text \<open>
  A directory on which nothing has run yet, given by its listing and the contents of its
  files; a program that copies the file named by its second argument to standard output;
  a shell that answers every line outside the fragment with a syntax error.
\<close>

definition holding :: "(nat \<times> string) list \<Rightarrow> nat \<Rightarrow> string" where
  "holding al i = (case map_of al i of Some s \<Rightarrow> s | None \<Rightarrow> [])"

definition fresh :: "(string \<times> entry) list \<Rightarrow> (nat \<times> string) list \<Rightarrow> world" where
  "fresh es al = \<lparr>tests = Listing es, content = holding al, calls = [], opened = [], invoked = []\<rparr>"

definition cat_program :: program where
  "cat_program args es c =
     (case args of
        flag # p # rest \<Rightarrow>
          (case under_tests p of
             Some n \<Rightarrow> (case lookup es n of Some (Reg i) \<Rightarrow> (0, c i) | _ \<Rightarrow> (1, []))
           | None \<Rightarrow> (1, []))
      | _ \<Rightarrow> (2, []))"

definition rejecting :: "string \<Rightarrow> world \<Rightarrow> nat \<times> world" where
  "rejecting l w = (2, w)"

text \<open>
  A shell that also reads \<^verbatim>\<open>?\<close> in the words of a command: a word \<^verbatim>\<open>tests/p\<close> with
  \<^verbatim>\<open>?\<close> in it is replaced by the paths of the names that match \<open>p\<close>, in the order
  of their bytes, and stays as it is when there is none (\<^verbatim>\<open>?\<close> stands for any one
  character but a dot at the beginning of a name). It acts on a line when every such
  word is below \<^verbatim>\<open>tests\<close> and the path after \<^verbatim>\<open>>\<close> has no \<^verbatim>\<open>?\<close> or matches no
  name, and leaves the world as it is otherwise.
\<close>

fun glob_match :: "string \<Rightarrow> string \<Rightarrow> bool" where
  "glob_match [] [] = True"
| "glob_match (p # ps) (c # cs) = ((p = CHR ''?'' \<or> p = c) \<and> glob_match ps cs)"
| "glob_match [] (c # cs) = False"
| "glob_match (p # ps) [] = False"

definition matches :: "string \<Rightarrow> string \<Rightarrow> bool" where
  "matches pat n = (glob_match pat n \<and> (starts_with ''.'' n \<longrightarrow> starts_with ''.'' pat))"

fun bytes_le :: "string \<Rightarrow> string \<Rightarrow> bool" where
  "bytes_le [] s = True"
| "bytes_le (c # cs) [] = False"
| "bytes_le (c # cs) (d # ds) = ((of_char c :: nat) < of_char d \<or> (c = d \<and> bytes_le cs ds))"

fun insert_name :: "string \<Rightarrow> string list \<Rightarrow> string list" where
  "insert_name n [] = [n]"
| "insert_name n (m # ms) = (if bytes_le n m then n # m # ms else m # insert_name n ms)"

definition sort_names :: "string list \<Rightarrow> string list" where
  "sort_names ns = foldr insert_name ns []"

definition expand :: "(string \<times> entry) list \<Rightarrow> string \<Rightarrow> string list option" where
  "expand es w =
     (if CHR ''?'' \<notin> set w then Some [w]
      else
        (case under_tests w of
           Some pat \<Rightarrow>
             if CHR ''/'' \<in> set pat then None
             else
               (case sort_names (filter (matches pat) (remdups (map fst es))) of
                  [] \<Rightarrow> Some [w]
                | ms \<Rightarrow> Some (map (\<lambda>n. ''tests/'' @ n) ms))
         | None \<Rightarrow> None))"

definition glob_parse :: "string \<Rightarrow> (string list \<times> string) option" where
  "glob_parse l =
     (let ws = tokens l in
      if list_all (\<lambda>c. plain c \<or> c = CHR ''?'' \<or> c = CHR '' '' \<or> c = CHR ''>'') l
         \<and> list_all (\<lambda>w. CHR ''>'' \<in> set w \<longrightarrow> w = ''>'') ws
      then
        (case dropWhile (\<lambda>w. w \<noteq> ''>'') ws of
           gt # tgt # rest \<Rightarrow>
             if ''>'' \<in> set rest then None
             else Some (takeWhile (\<lambda>w. w \<noteq> ''>'') ws @ rest, tgt)
         | _ \<Rightarrow> None)
      else None)"

definition globbing :: "program option \<Rightarrow> string \<Rightarrow> world \<Rightarrow> nat \<times> world" where
  "globbing krun l w =
     (case (tests w, glob_parse l) of
        (Listing es, Some (av, tgt)) \<Rightarrow>
          (case (those (map (expand es) av), expand es tgt) of
             (Some avs, Some ts) \<Rightarrow>
               if ts = [tgt] then
                 (case redirected krun l (concat avs) tgt w of
                    Some r \<Rightarrow> r
                  | None \<Rightarrow> (2, w))
               else (2, w)
           | _ \<Rightarrow> (2, w))
      | _ \<Rightarrow> (2, w))"

text \<open>A directory with two inputs and one earlier output.\<close>

definition sample :: "(string \<times> entry) list" where
  "sample = [(''a.test'', Reg 0), (''a.test.out'', Reg 1), (''b.test'', Reg 2)]"

definition sample_content :: "(nat \<times> string) list" where
  "sample_content = [(0, ''1''), (1, ''old''), (2, ''2'')]"

abbreviation (input) sp :: char where
  "sp \<equiv> CHR '' ''"

section \<open>Lemmas\<close>

subsection \<open>The command lines of a run\<close>

lemma calls_system: "calls (snd (system krun beyond l w)) = calls w @ [l]"
  by (simp add: system_def split: prod.splits)

lemma calls_for_loop:
  "calls (for_loop krun beyond fs w) = calls w @ map line fs"
proof (induction fs arbitrary: w)
  case Nil
  show ?case by simp
next
  case (Cons f fs)
  obtain st w' where s: "system krun beyond (line f) w = (st, w')"
    by (cases "system krun beyond (line f) w")
  have "calls w' = calls w @ [line f]"
    using calls_system [of krun beyond "line f" w] s by simp
  with Cons.IH [of w'] s show ?case
    by (simp add: line_def)
qed

lemma issued_files:
  "files w = Inr fs \<Longrightarrow> issued krun beyond w = map line fs"
  by (simp add: issued_def script_def calls_for_loop)

lemma line_inj: "line f = line g \<Longrightarrow> f = g"
proof -
  assume e: "line f = line g"
  then have "length (line f) = length (line g)" by simp
  then have l: "length f = length g"
    by (simp add: line_def command_def TEST_DIR_def)
  from e have "f @ ('' > tests/'' @ f @ ''.out'') = g @ ('' > tests/'' @ g @ ''.out'')"
    by (simp add: line_def command_def TEST_DIR_def)
  with l show "f = g" by (metis append_eq_append_conv)
qed

lemma files_Inr:
  "tests w = Listing es \<Longrightarrow>
   files w = Inr (filter (\<lambda>f. isfile w (join TEST_DIR f) \<and> \<not> contains ''.out'' f) (map fst es))"
  by (simp add: files_def listdir_def TEST_DIR_def)

lemma files_sound:
  "files w = Inr fs \<Longrightarrow> f \<in> set fs \<Longrightarrow> \<not> contains ''.out'' f \<and> isfile w (join TEST_DIR f)"
  by (auto simp: files_def split: sum.splits)

lemma split_acc_word:
  "sp \<notin> set a \<Longrightarrow> split_acc acc (a @ r) = split_acc (acc @ a) r"
  by (induction a arbitrary: acc) auto

lemma split_acc_space:
  "split_acc acc (x @ sp # y) = split_acc acc x @ split_acc [] y"
  by (induction x arbitrary: acc) auto

lemma tokens_space: "tokens (x @ sp # y) = tokens x @ tokens y"
  by (simp add: tokens_def split_acc_space)

lemma tokens_word: "sp \<notin> set a \<Longrightarrow> a \<noteq> [] \<Longrightarrow> tokens a = [a]"
  using split_acc_word [of a "[]" "[]"] by (simp add: tokens_def)

lemma tokens_Nil: "tokens [] = []"
  by (simp add: tokens_def)

lemma tokens_head:
  assumes "sp \<notin> set p" "p \<noteq> []"
  shows "tokens (p @ s) =
         (p @ takeWhile (\<lambda>c. c \<noteq> sp) s) # tokens (dropWhile (\<lambda>c. c \<noteq> sp) s)"
proof (cases "dropWhile (\<lambda>c. c \<noteq> sp) s")
  case Nil
  then have s: "sp \<notin> set s"
    by (auto simp: dropWhile_eq_Nil_conv)
  then have t: "takeWhile (\<lambda>c. c \<noteq> sp) s = s"
    by (induction s) auto
  from assms s have "tokens (p @ s) = [p @ s]"
    by (simp add: tokens_word)
  then show ?thesis
    by (simp only: Nil t tokens_Nil)
next
  case (Cons c r)
  then have c: "c = sp" using hd_dropWhile [of "\<lambda>c. c \<noteq> sp" s] by force
  let ?a = "takeWhile (\<lambda>c. c \<noteq> sp) s"
  have a: "sp \<notin> set ?a" by (auto dest: set_takeWhileD)
  have "s = ?a @ sp # r" using Cons c takeWhile_dropWhile_id [of "\<lambda>c. c \<noteq> sp" s] by simp
  then have "tokens (p @ s) = tokens ((p @ ?a) @ sp # r)" by simp
  also have "\<dots> = tokens (p @ ?a) @ tokens r" by (rule tokens_space)
  also have "tokens (p @ ?a) = [p @ ?a]" using assms a by (simp add: tokens_word)
  also have "tokens r = tokens (dropWhile (\<lambda>c. c \<noteq> sp) s)"
    using Cons c tokens_space [of "[]" r] by (simp add: tokens_Nil)
  finally show ?thesis by simp
qed

lemma split_acc_chars:
  "w \<in> set (split_acc acc s) \<Longrightarrow> set w \<subseteq> set acc \<union> set s"
  by (induction s arbitrary: acc) (fastforce split: if_splits)+

lemma tokens_chars: "w \<in> set (tokens s) \<Longrightarrow> set w \<subseteq> set s"
  using split_acc_chars [of w "[]" s] by (simp add: tokens_def)

lemma line_tokens:
  "tokens (line f) =
   [''krun'', ''--search''] @ tokens (''tests/'' @ f) @ [''>''] @ tokens (''tests/'' @ f @ ''.out'')"
proof -
  have "line f = ''krun'' @ sp # ''--search'' @ sp # (''tests/'' @ f) @ sp # ''>'' @ sp # (''tests/'' @ f @ ''.out'')"
    by (simp add: line_def command_def TEST_DIR_def)
  then show ?thesis
    by (simp only: tokens_space) (simp add: tokens_word)
qed

lemma unsafe_chars: "\<not> safe_char CHR ''>''" "\<not> safe_char CHR ''/''" "\<not> safe_char CHR '' ''"
  by (simp_all add: safe_char_def)

lemma in_fragment_chars:
  "in_fragment f \<Longrightarrow> CHR ''>'' \<notin> set f \<and> CHR ''/'' \<notin> set f"
  using unsafe_chars by (auto simp: in_fragment_def list_all_iff)

lemma template_chars:
  "list_all (\<lambda>c. plain c \<or> c = CHR '' '' \<or> c = CHR ''>'') ''krun --search tests/''"
  "list_all (\<lambda>c. plain c \<or> c = CHR '' '' \<or> c = CHR ''>'') '' > tests/''"
  "list_all (\<lambda>c. plain c \<or> c = CHR '' '' \<or> c = CHR ''>'') ''.out''"
  by (simp_all add: plain_def safe_char_def)

lemma in_fragment_line:
  assumes "in_fragment f"
  shows "list_all (\<lambda>c. plain c \<or> c = CHR '' '' \<or> c = CHR ''>'') (line f)"
proof -
  from assms have f: "list_all (\<lambda>c. plain c \<or> c = CHR '' '' \<or> c = CHR ''>'') f"
    by (auto simp: in_fragment_def list_all_iff plain_def)
  have "line f = ''krun --search tests/'' @ f @ '' > tests/'' @ f @ ''.out''"
    by (simp add: line_def command_def TEST_DIR_def)
  then show ?thesis
    using f template_chars by (simp only: list_all_append simp_thms)
qed

lemma T2_split:
  "tokens (''tests/'' @ f @ ''.out'') = (''tests/'' @ target_name f) # tokens (dropWhile (\<lambda>c. c \<noteq> CHR '' '') (f @ ''.out''))"
  unfolding target_name_def by (rule tokens_head) simp_all

lemma T1_split:
  "tokens (''tests/'' @ f) = (''tests/'' @ takeWhile (\<lambda>c. c \<noteq> CHR '' '') f) # tokens (dropWhile (\<lambda>c. c \<noteq> CHR '' '') f)"
  by (rule tokens_head) simp_all

lemma no_gt_chars:
  assumes "in_fragment f" "set s \<subseteq> set f \<union> set ''tests/.out''"
  shows "CHR ''>'' \<notin> set s"
  using in_fragment_chars [OF assms(1)] assms(2) by auto

lemma no_gt_words:
  assumes "in_fragment f" "w \<in> set (tokens s)" "set s \<subseteq> set f \<union> set ''tests/.out''"
  shows "CHR ''>'' \<notin> set w"
proof -
  from assms(2) have "set w \<subseteq> set s" by (rule tokens_chars)
  with assms(3) have "set w \<subseteq> set f \<union> set ''tests/.out''" by blast
  with assms(1) show ?thesis by (rule no_gt_chars)
qed

lemma parse_fragment:
  assumes f: "in_fragment f"
  shows "sh_parse (line f) = Some (''krun'' # args_of f, ''tests/'' @ target_name f)"
proof -
  let ?T1 = "tokens (''tests/'' @ f)"
  let ?R = "tokens (dropWhile (\<lambda>c. c \<noteq> CHR '' '') (f @ ''.out''))"
  let ?tgt = "''tests/'' @ target_name f"
  let ?pre = "[''krun'', ''--search''] @ ?T1"
  have "tokens (line f) = [''krun'', ''--search''] @ ?T1 @ [''>''] @ (?tgt # ?R)"
    by (simp only: line_tokens T2_split)
  then have ws: "tokens (line f) = ?pre @ ''>'' # ?tgt # ?R"
    by simp
  have R: "CHR ''>'' \<notin> set w" if "w \<in> set ?R" for w
    using f that
  proof (rule no_gt_words)
    show "set (dropWhile (\<lambda>c. c \<noteq> CHR '' '') (f @ ''.out'')) \<subseteq> set f \<union> set ''tests/.out''"
      by (auto dest!: set_dropWhileD)
  qed
  have T1: "CHR ''>'' \<notin> set w" if "w \<in> set ?T1" for w
    using f that by (rule no_gt_words) auto
  have tgt: "CHR ''>'' \<notin> set ?tgt"
    using f
  proof (rule no_gt_chars)
    show "set ?tgt \<subseteq> set f \<union> set ''tests/.out''"
      by (auto simp: target_name_def dest!: set_takeWhileD)
  qed
  have pre: "w \<noteq> ''>''" if "w \<in> set ?pre" for w
    using that T1 [of w] by auto
  have "\<And>w. w \<in> set (tokens (line f)) \<Longrightarrow> CHR ''>'' \<in> set w \<Longrightarrow> w = ''>''"
    unfolding ws using R tgt T1 by auto
  then have c2: "list_all (\<lambda>w. CHR ''>'' \<in> set w \<longrightarrow> w = ''>'') (tokens (line f))"
    by (simp add: list_all_iff)
  have d: "dropWhile (\<lambda>w. w \<noteq> ''>'') (tokens (line f)) = ''>'' # ?tgt # ?R"
    unfolding ws using pre by (subst dropWhile_append2) auto
  have t: "takeWhile (\<lambda>w. w \<noteq> ''>'') (tokens (line f)) = ?pre"
    unfolding ws using pre by (subst takeWhile_append2) auto
  have r: "''>'' \<notin> set ?R" using R by force
  show ?thesis
    unfolding sh_parse_def Let_def
    by (simp only: in_fragment_line [OF f] c2 d t r list.case if_True if_False simp_thms)
      (simp add: args_of_def)
qed

lemma parse_take3:
  assumes "sh_parse (line g) = Some (av, tgt)"
  shows "take 3 av = [''krun'', ''--search'', ''tests/'' @ takeWhile (\<lambda>c. c \<noteq> CHR '' '') g]"
proof -
  let ?w3 = "''tests/'' @ takeWhile (\<lambda>c. c \<noteq> CHR '' '') g"
  have "tokens (line g) = [''krun'', ''--search''] @ (?w3 # tokens (dropWhile (\<lambda>c. c \<noteq> CHR '' '') g))
           @ [''>''] @ tokens (''tests/'' @ g @ ''.out'')"
    by (simp only: line_tokens T1_split)
  then obtain more where ws: "tokens (line g) = ''krun'' # ''--search'' # ?w3 # more"
    by simp
  have "?w3 \<noteq> ''>''" by simp
  then have "takeWhile (\<lambda>w. w \<noteq> ''>'') (tokens (line g))
        = ''krun'' # ''--search'' # ?w3 # takeWhile (\<lambda>w. w \<noteq> ''>'') more"
    unfolding ws by simp
  moreover from assms obtain rest where
    "av = takeWhile (\<lambda>w. w \<noteq> ''>'') (tokens (line g)) @ rest"
    by (auto simp: sh_parse_def Let_def split: if_splits list.splits)
  ultimately show ?thesis by simp
qed

lemma starts_with_append: "starts_with sub a \<Longrightarrow> starts_with sub (a @ b)"
  by (induction sub a rule: starts_with.induct) auto

lemma contains_Nil: "contains [] s"
  by (cases s) auto

lemma contains_append1: "contains sub a \<Longrightarrow> contains sub (a @ b)"
proof (induction a)
  case Nil
  then show ?case by (simp add: contains_Nil)
next
  case (Cons c cs)
  then show ?case
    using starts_with_append [of sub "c # cs" b] by auto
qed

lemma contains_takeWhile: "contains sub (takeWhile P g) \<Longrightarrow> contains sub g"
  using contains_append1 [of sub "takeWhile P g" "dropWhile P g"] by simp

lemma starts_with_self: "starts_with sub (sub @ b)"
  by (induction sub) auto

lemma contains_append2: "contains sub b \<Longrightarrow> contains sub (a @ b)"
  by (induction a) auto

lemma contains_suffix: "contains sub (a @ sub)"
  using contains_append2 [of sub sub a] starts_with_self [of sub "[]"]
  by (cases sub) auto

lemma issued_error: "files w = Inl e \<Longrightarrow> issued krun beyond w = []"
  by (simp add: issued_def script_def)

lemma split_acc_no_space:
  "w \<in> set (split_acc acc s) \<Longrightarrow> CHR '' '' \<notin> set acc \<Longrightarrow> CHR '' '' \<notin> set w"
  by (induction s arbitrary: acc) (fastforce split: if_splits)+

lemma tokens_no_space: "w \<in> set (tokens s) \<Longrightarrow> CHR '' '' \<notin> set w"
  using split_acc_no_space [of w "[]" s] by (simp add: tokens_def)

subsection \<open>The loop on the directory\<close>

lemma under_tests_prefix: "under_tests (''tests/'' @ n) = Some n"
  by (simp add: under_tests_def)

lemma target_no_slash: "in_fragment f \<Longrightarrow> CHR ''/'' \<notin> set (target_name f)"
  using in_fragment_chars [of f] by (auto simp: target_name_def dest!: set_takeWhileD)

lemma redirected_fragment:
  assumes "in_fragment f" "tests w = Listing es" "lookup es (target_name f) \<noteq> Some Other"
    "under_tests tgt = Some (target_name f)"
  shows "redirected krun l (''krun'' # av) tgt w =
           Some (if lookup es (target_name f) = Some Subdir then (1, w)
                 else run_redirected krun l (''krun'' # av) tgt (slot es (target_name f)) w)"
  using assms target_no_slash [OF assms(1)]
  by (auto simp: redirected_def split: option.splits entry.splits)

lemma run_redirected_world:
  "snd (run_redirected krun l av tgt (i, es1) w) =
     w\<lparr>tests := Listing es1,
       content := (case krun of
                     None \<Rightarrow> (content w)(i := [])
                   | Some k \<Rightarrow> (content w)(i := snd (k (tl av) es1 ((content w)(i := []))))),
       opened := opened w @ [(l, tgt)],
       invoked := (case krun of
                     None \<Rightarrow> invoked w
                   | Some k \<Rightarrow> invoked w @
                       [\<lparr>argv = av, stdout_to = tgt,
                         status = fst (k (tl av) es1 ((content w)(i := []))),
                         captured = snd (k (tl av) es1 ((content w)(i := [])))\<rparr>])\<rparr>"
  by (cases krun) (simp_all add: run_redirected_def Let_def split: prod.splits)

lemma system_fragment:
  assumes "in_fragment g" "tests w = Listing es" "lookup es (target_name g) \<noteq> Some Other"
  shows "snd (system krun beyond (line g) w) = step krun g w"
proof -
  have "redirected krun (line g) (''krun'' # args_of g) (''tests/'' @ target_name g) w =
           Some (if lookup es (target_name g) = Some Subdir then (1, w)
                 else run_redirected krun (line g) (''krun'' # args_of g) (''tests/'' @ target_name g)
                        (slot es (target_name g)) w)"
    using assms under_tests_prefix by (rule redirected_fragment)
  then show ?thesis
    using assms(2)
    by (simp add: system_def step_def parse_fragment [OF assms(1)] split: prod.splits)
qed

lemma step_refused:
  "tests w = Listing es \<Longrightarrow> lookup es (target_name g) = Some Subdir \<Longrightarrow>
   step krun g w = w\<lparr>calls := calls w @ [line g]\<rparr>"
  by (simp add: step_def)

lemma step_done:
  assumes "tests w = Listing es" "lookup es (target_name g) \<noteq> Some Subdir"
  shows "step krun g w =
     w\<lparr>tests := Listing (snd (slot es (target_name g))),
       content := (content w)(fst (slot es (target_name g)) := written krun g es (content w)),
       opened := opened w @ [(line g, ''tests/'' @ target_name g)],
       invoked := invoked w @ started krun g es (content w),
       calls := calls w @ [line g]\<rparr>"
proof -
  obtain i es1 where s: "slot es (target_name g) = (i, es1)"
    by (cases "slot es (target_name g)")
  show ?thesis
    using assms
    by (cases krun)
      (simp_all add: step_def s run_redirected_world written_def started_def)
qed

lemma fresh_ino: "(k, Reg i) \<in> set es \<Longrightarrow> i < next_ino es"
  by (induction es rule: next_ino.induct) auto

lemma lookup_in: "lookup es n = Some (Reg i) \<Longrightarrow> (n, Reg i) \<in> set es"
  by (auto simp: lookup_def split: if_splits dest: map_of_SomeD)

lemma lookup_None: "lookup es n = None \<Longrightarrow> map_of es n = None"
  by (auto simp: lookup_def split: if_splits)

lemma slot_reg: "lookup es n = Some (Reg i) \<Longrightarrow> slot es n = (i, es)"
  by (simp add: slot_def)

lemma slot_new:
  "lookup es n = None \<Longrightarrow> slot es n = (next_ino es, es @ [(n, Reg (next_ino es))])"
  by (simp add: slot_def)

lemma writable_cases:
  "writable es n \<Longrightarrow> lookup es n = None \<or> (\<exists>i. lookup es n = Some (Reg i))"
  by (cases "lookup es n") (auto simp: writable_def intro: entry.exhaust)

lemma lookup_slot_same:
  assumes "writable es n"
  shows "lookup (snd (slot es n)) n = Some (Reg (fst (slot es n)))"
  using writable_cases [OF assms]
proof
  assume n: "lookup es n = None"
  then have "n \<noteq> []" "n \<noteq> ''.''" "n \<noteq> ''..''" by (auto simp: lookup_def split: if_splits)
  with lookup_None [OF n] show ?thesis
    by (simp add: slot_new [OF n] lookup_def map_add_def)
next
  assume "\<exists>i. lookup es n = Some (Reg i)"
  then show ?thesis by (auto simp: slot_reg)
qed

lemma lookup_slot_other: "k \<noteq> n \<Longrightarrow> lookup (snd (slot es n)) k = lookup es k"
  by (auto simp: slot_def lookup_def map_add_def split: option.splits entry.splits)

lemma lookup_slot_keep: "lookup es k = Some e \<Longrightarrow> lookup (snd (slot es n)) k = Some e"
  by (auto simp: slot_def lookup_def map_add_def split: option.splits entry.splits if_splits)

lemma lookup_slot_kind:
  "e \<noteq> Reg (fst (slot es n)) \<Longrightarrow> (lookup (snd (slot es n)) k = Some e) = (lookup es k = Some e)"
  by (auto simp: slot_def lookup_def map_add_def split: option.splits entry.splits if_splits)



lemma step_tests: "tests w = Listing es \<Longrightarrow> tests (step krun g w) = Listing (grown g es)"
  by (cases "lookup es (target_name g) = Some Subdir")
    (simp_all add: step_refused step_done grown_def)

lemma steps_tests: "tests w = Listing es \<Longrightarrow> tests (steps krun fs w) = Listing (grow fs es)"
  by (induction fs arbitrary: w es) (simp_all add: step_tests)

lemma steps_append: "steps krun (xs @ ys) w = steps krun ys (steps krun xs w)"
  by (induction xs arbitrary: w) simp_all

lemma lookup_grown_keep: "lookup es k = Some e \<Longrightarrow> lookup (grown g es) k = Some e"
  by (simp add: grown_def lookup_slot_keep)

lemma lookup_grown_kind:
  "e = Subdir \<or> e = Other \<Longrightarrow> (lookup (grown g es) k = Some e) = (lookup es k = Some e)"
  by (auto simp: grown_def lookup_slot_kind)


lemma lookup_grown_same:
  "writable es (target_name g) \<Longrightarrow>
   lookup (grown g es) (target_name g) = Some (Reg (fst (slot es (target_name g))))"
  by (simp add: grown_def lookup_slot_same) (simp add: writable_def)

lemma writable_grown: "writable (grown g es) n = writable es n"
  by (simp add: writable_def lookup_grown_kind)

lemma clear_grown: "clear fs (grown g es) = clear fs es"
  by (simp add: clear_def lookup_grown_kind)

lemma lookup_grow_keep: "lookup es k = Some e \<Longrightarrow> lookup (grow fs es) k = Some e"
  by (induction fs arbitrary: es) (simp_all add: lookup_grown_keep)


lemma writable_grow: "writable (grow fs es) n = writable es n"
  by (induction fs arbitrary: es) (simp_all add: writable_grown)


lemma clear_Cons: "clear (g # gs) es = (lookup es (target_name g) \<noteq> Some Other \<and> clear gs es)"
  by (simp add: clear_def)



lemma for_loop_steps:
  assumes "list_all in_fragment fs" "tests w = Listing es" "clear fs es"
  shows "for_loop krun beyond fs w = steps krun fs w"
  using assms
proof (induction fs arbitrary: w es)
  case Nil
  show ?case by simp
next
  case (Cons g gs)
  from Cons.prems have g: "in_fragment g" "lookup es (target_name g) \<noteq> Some Other"
    and gs: "list_all in_fragment gs" "clear gs es"
    by (simp_all add: clear_Cons)
  have s: "snd (system krun beyond (line g) w) = step krun g w"
    using g(1) Cons.prems(2) g(2) by (rule system_fragment)
  have "for_loop krun beyond (g # gs) w = for_loop krun beyond gs (snd (system krun beyond (line g) w))"
    by (simp add: line_def split: prod.splits)
  also have "\<dots> = steps krun gs (step krun g w)"
    unfolding s
    using gs(1) step_tests [OF Cons.prems(2)] gs(2)
    by (intro Cons.IH [where es = "grown g es"]) (simp_all add: clear_grown)
  finally show ?case by simp
qed

lemma sole_Reg:
  "lookup es m = Some (Reg i) \<Longrightarrow> sole es m = list_all (\<lambda>(k, e). e = Reg i \<longrightarrow> k = m) es"
  by (simp add: sole_def)

lemma sole_slot: "sole es m \<Longrightarrow> sole (snd (slot es n)) m"
proof (cases "\<exists>j. lookup es n = Some (Reg j)")
  case True
  then show "sole es m \<Longrightarrow> ?thesis" by (auto simp: slot_reg)
next
  case False
  then have s: "snd (slot es n) = es @ [(n, Reg (next_ino es))]"
    by (auto simp: slot_def split: option.splits entry.splits)
  assume m: "sole es m"
  show ?thesis
  proof (cases "lookup es m")
    case None
    show ?thesis
    proof (cases "m = n")
      case True
      have "lookup (es @ [(n, Reg (next_ino es))]) n = Some (Reg (next_ino es))"
        using None True lookup_None [OF None]
        by (auto simp: lookup_def map_add_def split: if_splits)
      moreover have "list_all (\<lambda>(k, e). e = Reg (next_ino es) \<longrightarrow> k = n) es"
        by (auto simp: list_all_iff dest: fresh_ino)
      ultimately show ?thesis by (simp add: s sole_def True)
    next
      case False
      with None have "lookup (snd (slot es n)) m = None"
        by (simp add: lookup_slot_other)
      then show ?thesis by (simp add: sole_def)
    qed
  next
    case (Some e)
    with m obtain i where i: "lookup es m = Some (Reg i)"
      by (cases e) (simp_all add: sole_def)
    from lookup_in [OF i] have "i \<noteq> next_ino es" by (auto dest: fresh_ino)
    moreover from i have "lookup (snd (slot es n)) m = Some (Reg i)"
      by (rule lookup_slot_keep)
    ultimately show ?thesis
      using m i by (simp add: sole_Reg) (simp add: s)
  qed
qed

lemma sole_grown: "sole es m \<Longrightarrow> sole (grown g es) m"
  by (simp add: grown_def sole_slot)

lemma sole_grow: "sole es m \<Longrightarrow> sole (grow fs es) m"
  by (induction fs arbitrary: es) (simp_all add: sole_grown)


lemma slot_other_ino:
  assumes "lookup es m = Some (Reg i)" "sole es m" "n \<noteq> m"
  shows "fst (slot es n) \<noteq> i"
proof (cases "\<exists>j. lookup es n = Some (Reg j)")
  case True
  then obtain j where j: "lookup es n = Some (Reg j)" ..
  have "j \<noteq> i"
  proof
    assume "j = i"
    with lookup_in [OF j] assms(1,2) have "n = m"
      by (auto simp: sole_Reg list_all_iff)
    with assms(3) show False by simp
  qed
  with j show ?thesis by (simp add: slot_reg)
next
  case False
  then have "fst (slot es n) = next_ino es"
    by (auto simp: slot_def split: option.splits entry.splits)
  with fresh_ino [OF lookup_in [OF assms(1)]] show ?thesis by simp
qed

lemma content_step_other:
  assumes "tests w = Listing es" "lookup es m = Some (Reg i)" "sole es m" "target_name g \<noteq> m"
  shows "content (step krun g w) i = content w i"
proof (cases "lookup es (target_name g) = Some Subdir")
  case True
  with assms(1) show ?thesis by (simp add: step_refused)
next
  case False
  with assms(1) slot_other_ino [OF assms(2,3,4)] show ?thesis
    by (simp add: step_done)
qed

lemma content_steps_other:
  assumes "tests w = Listing es" "lookup es m = Some (Reg i)" "sole es m"
    "\<forall>g\<in>set fs. target_name g \<noteq> m"
  shows "content (steps krun fs w) i = content w i"
  using assms
proof (induction fs arbitrary: w es)
  case Nil
  show ?case by simp
next
  case (Cons g gs)
  from Cons.prems(4) have g: "target_name g \<noteq> m" and gs: "\<forall>g\<in>set gs. target_name g \<noteq> m"
    by simp_all
  have "content (steps krun gs (step krun g w)) i = content (step krun g w) i"
    using step_tests [OF Cons.prems(1)] lookup_grown_keep [OF Cons.prems(2)]
      sole_grown [OF Cons.prems(3)] gs
    by (rule Cons.IH)
  also have "\<dots> = content w i"
    using Cons.prems(1,2,3) g by (rule content_step_other)
  finally show ?case by simp
qed







lemma takeWhile_all: "\<forall>x\<in>set xs. P x \<Longrightarrow> takeWhile P xs = xs"
  by (induction xs) auto

lemma target_safe: "CHR '' '' \<notin> set f \<Longrightarrow> target_name f = f @ ''.out''"
  unfolding target_name_def by (rule takeWhile_all) auto


lemma target_spaced:
  "CHR '' '' \<in> set g \<Longrightarrow> target_name g = takeWhile (\<lambda>c. c \<noteq> CHR '' '') g"
  unfolding target_name_def by (rule takeWhile_append1) auto

lemma target_eq:
  assumes "\<not> contains ''.out'' g" "target_name g = f @ ''.out''"
  shows "g = f"
proof (cases "CHR '' '' \<in> set g")
  case True
  with assms(2) have "takeWhile (\<lambda>c. c \<noteq> CHR '' '') g = f @ ''.out''"
    by (simp add: target_spaced)
  then have "contains ''.out'' (takeWhile (\<lambda>c. c \<noteq> CHR '' '') g)"
    using contains_suffix [of "''.out''" f] by simp
  with assms(1) show ?thesis by (auto dest: contains_takeWhile)
next
  case False
  with assms(2) show ?thesis by (simp add: target_safe)
qed



lemma script_steps:
  assumes "tests w = Listing es" "files w = Inr fs" "list_all in_fragment fs" "clear fs es"
  shows "snd (script krun beyond w) = steps krun fs w"
  using for_loop_steps [OF assms(3,1,4), of krun beyond] assms(2)
  by (simp add: script_def)

lemma step_cases:
  obtains "step krun g w = w"
  | "step krun g w = w\<lparr>calls := calls w @ [line g]\<rparr>"
  | es where "tests w = Listing es" "lookup es (target_name g) \<noteq> Some Subdir"
      "step krun g w =
         w\<lparr>tests := Listing (snd (slot es (target_name g))),
           content := (content w)(fst (slot es (target_name g)) := written krun g es (content w)),
           opened := opened w @ [(line g, ''tests/'' @ target_name g)],
           invoked := invoked w @ started krun g es (content w),
           calls := calls w @ [line g]\<rparr>"
proof (cases "tests w")
  case Missing
  then have "step krun g w = w" by (simp add: step_def)
  then show ?thesis by (rule that(1))
next
  case NotDir
  then have "step krun g w = w" by (simp add: step_def)
  then show ?thesis by (rule that(1))
next
  case (Listing es)
  show ?thesis
  proof (cases "lookup es (target_name g) = Some Subdir")
    case True
    with Listing show ?thesis by (intro that(2)) (rule step_refused)
  next
    case False
    with Listing show ?thesis by (intro that(3) step_done)
  qed
qed

lemma invoked_step: "\<exists>xs. invoked (step krun g w) = invoked w @ xs"
  by (rule step_cases [of krun g w]) simp_all

lemma invoked_steps: "\<exists>xs. invoked (steps krun fs w) = invoked w @ xs"
proof (induction fs arbitrary: w)
  case Nil
  show ?case by simp
next
  case (Cons g gs)
  from invoked_step [of krun g w] obtain xs where "invoked (step krun g w) = invoked w @ xs" ..
  moreover from Cons.IH [of "step krun g w"] obtain ys where
    "invoked (steps krun gs (step krun g w)) = invoked (step krun g w) @ ys" ..
  ultimately show ?case by simp
qed



lemma opened_step:
  "\<exists>xs. opened (step krun g w) = opened w @ xs \<and> (\<forall>x\<in>set xs. fst x = line g)"
  by (rule step_cases [of krun g w]) simp_all

lemma opened_steps_foreign:
  "f \<notin> set fs \<Longrightarrow>
   \<exists>xs. opened (steps krun fs w) = opened w @ xs \<and> filter (\<lambda>x. fst x = line f) xs = []"
proof (induction fs arbitrary: w)
  case Nil
  show ?case by simp
next
  case (Cons g gs)
  from opened_step [of krun g w] obtain xs where
    xs: "opened (step krun g w) = opened w @ xs" "\<forall>x\<in>set xs. fst x = line g" by blast
  from Cons.prems have "g \<noteq> f" by auto
  with xs(2) have "filter (\<lambda>x. fst x = line f) xs = []"
    by (auto simp: filter_empty_conv dest: line_inj)
  moreover from Cons.prems Cons.IH [of "step krun g w"] obtain ys where
    "opened (steps krun gs (step krun g w)) = opened (step krun g w) @ ys"
    "filter (\<lambda>x. fst x = line f) ys = []" by auto
  ultimately show ?case using xs(1) by simp
qed

lemma content_step_None: "content w i = [] \<Longrightarrow> content (step None g w) i = []"
  by (rule step_cases [of None g w]) (simp_all add: written_def)

lemma content_steps_None: "content w i = [] \<Longrightarrow> content (steps None fs w) i = []"
  by (induction fs arbitrary: w) (simp_all add: content_step_None)

lemma split_at:
  assumes "f \<in> set fs" "distinct fs"
  shows "fs = takeWhile (\<lambda>g. g \<noteq> f) fs @ f # tl (dropWhile (\<lambda>g. g \<noteq> f) fs) \<and>
         f \<notin> set (takeWhile (\<lambda>g. g \<noteq> f) fs) \<and> f \<notin> set (tl (dropWhile (\<lambda>g. g \<noteq> f) fs))"
proof -
  let ?pre = "takeWhile (\<lambda>g. g \<noteq> f) fs" and ?rest = "dropWhile (\<lambda>g. g \<noteq> f) fs"
  from assms(1) have "?rest \<noteq> []" by (auto simp: dropWhile_eq_Nil_conv)
  moreover from this have "hd ?rest = f" using hd_dropWhile [of "\<lambda>g. g \<noteq> f" fs] by simp
  ultimately have r: "?rest = f # tl ?rest" by (cases ?rest) simp_all
  then have s: "fs = ?pre @ f # tl ?rest" using takeWhile_dropWhile_id [of "\<lambda>g. g \<noteq> f" fs] by simp
  have p: "f \<notin> set ?pre" by (auto dest: set_takeWhileD)
  from assms(2) have "distinct (?pre @ f # tl ?rest)" using s by simp
  then have "f \<notin> set (tl ?rest)" by simp
  with s p show ?thesis by blast
qed





lemma run_at:
  fixes krun f fs w es
  defines "pre \<equiv> takeWhile (\<lambda>g. g \<noteq> f) fs"
    and "post \<equiv> tl (dropWhile (\<lambda>g. g \<noteq> f) fs)"
  defines "w0 \<equiv> steps krun pre w" and "es0 \<equiv> grow pre es"
  defines "i \<equiv> fst (slot es0 (f @ ''.out''))" and "d \<equiv> snd (slot es0 (f @ ''.out''))"
  assumes t: "tests w = Listing es" and f: "f \<in> set fs" and dist: "distinct fs"
    and sp: "CHR '' '' \<notin> set f" and wr: "writable es (f @ ''.out'')"
  shows run_before: "tests w0 = Listing es0"
    and run_tests: "tests (steps krun fs w) = Listing (grow post d)"
    and run_lookup: "lookup (grow post d) (f @ ''.out'') = Some (Reg i)"
    and run_seen: "lookup d (f @ ''.out'') = Some (Reg i)"
    and run_invoked: "\<exists>xs ys. invoked (steps krun fs w) = invoked w @ xs @ started krun f es0 (content w0) @ ys"
    and run_opened: "map snd (filter (\<lambda>x. fst x = line f) (drop (length (opened w)) (opened (steps krun fs w))))
                       = [''tests/'' @ f @ ''.out'']"
    and run_content: "sole es (f @ ''.out'') \<Longrightarrow> \<forall>g\<in>set fs. \<not> contains ''.out'' g \<Longrightarrow>
                       content (steps krun fs w) i = written krun f es0 (content w0)"
    and run_content_None: "krun = None \<Longrightarrow> content (steps krun fs w) i = []"
proof -
  from split_at [OF f dist] have fs: "fs = pre @ f # post"
    and npre: "f \<notin> set pre" and npost: "f \<notin> set post"
    by (simp_all add: pre_def post_def)
  show A: "tests w0 = Listing es0"
    unfolding w0_def es0_def using t by (rule steps_tests)
  have wr0: "writable es0 (f @ ''.out'')"
    using wr by (simp add: es0_def writable_grow)
  then have ns: "lookup es0 (target_name f) \<noteq> Some Subdir"
    by (simp add: writable_def target_safe [OF sp])
  let ?w1 = "step krun f w0"
  have w1: "?w1 = w0\<lparr>tests := Listing d,
       content := (content w0)(i := written krun f es0 (content w0)),
       opened := opened w0 @ [(line f, ''tests/'' @ f @ ''.out'')],
       invoked := invoked w0 @ started krun f es0 (content w0),
       calls := calls w0 @ [line f]\<rparr>"
    using step_done [OF A ns, of krun] by (simp add: target_safe [OF sp] i_def d_def)
  have all: "steps krun fs w = steps krun post ?w1"
    by (subst fs) (simp add: steps_append w0_def)
  from w1 have t1: "tests ?w1 = Listing d" by simp
  show B: "tests (steps krun fs w) = Listing (grow post d)"
    unfolding all using t1 by (rule steps_tests)
  show S: "lookup d (f @ ''.out'') = Some (Reg i)"
    unfolding d_def i_def using wr0 by (rule lookup_slot_same)
  then show "lookup (grow post d) (f @ ''.out'') = Some (Reg i)"
    by (rule lookup_grow_keep)
  show "\<exists>xs ys. invoked (steps krun fs w) = invoked w @ xs @ started krun f es0 (content w0) @ ys"
  proof -
    from invoked_steps [of krun pre w] obtain xs where "invoked w0 = invoked w @ xs"
      unfolding w0_def ..
    moreover from invoked_steps [of krun post ?w1] obtain ys where
      "invoked (steps krun post ?w1) = invoked ?w1 @ ys" ..
    ultimately have "invoked (steps krun fs w) = invoked w @ xs @ started krun f es0 (content w0) @ ys"
      unfolding all by (simp add: w1)
    then show ?thesis by blast
  qed
  show "map snd (filter (\<lambda>x. fst x = line f) (drop (length (opened w)) (opened (steps krun fs w))))
          = [''tests/'' @ f @ ''.out'']"
  proof -
    from opened_steps_foreign [OF npre, of krun w] obtain xs where
      "opened w0 = opened w @ xs" "filter (\<lambda>x. fst x = line f) xs = []"
      unfolding w0_def by blast
    moreover from opened_steps_foreign [OF npost, of krun ?w1] obtain ys where
      "opened (steps krun post ?w1) = opened ?w1 @ ys" "filter (\<lambda>x. fst x = line f) ys = []"
      by blast
    ultimately show ?thesis unfolding all by (simp add: w1)
  qed
  show "content (steps krun fs w) i = written krun f es0 (content w0)"
    if so: "sole es (f @ ''.out'')" and q: "\<forall>g\<in>set fs. \<not> contains ''.out'' g"
  proof -
    have "sole d (f @ ''.out'')"
      unfolding d_def es0_def using so by (intro sole_slot sole_grow)
    moreover have "\<forall>g\<in>set post. target_name g \<noteq> f @ ''.out''"
    proof
      fix g assume g: "g \<in> set post"
      with fs q have "\<not> contains ''.out'' g" by (metis in_set_conv_decomp set_ConsD set_append UnI2 list.set_intros(2))
      moreover from g npost have "g \<noteq> f" by auto
      ultimately show "target_name g \<noteq> f @ ''.out''" by (auto dest: target_eq)
    qed
    ultimately have "content (steps krun post ?w1) i = content ?w1 i"
      using t1 S by (intro content_steps_other)
    then show ?thesis unfolding all by (simp add: w1)
  qed
  show "content (steps krun fs w) i = []" if "krun = None"
  proof -
    have "content ?w1 i = []" unfolding w1 using that by (simp add: written_def)
    then have "content (steps None post ?w1) i = []" by (rule content_steps_None)
    with that show ?thesis unfolding all by simp
  qed
qed












lemma started_argv: "iv \<in> set (started krun g es c) \<Longrightarrow> argv iv = ''krun'' # args_of g"
  by (cases krun) (auto simp: started_def)

lemma invoked_step_argv:
  "\<exists>xs. invoked (step krun g w) = invoked w @ xs \<and> (\<forall>iv\<in>set xs. argv iv = ''krun'' # args_of g)"
  by (rule step_cases [of krun g w]) (auto dest: started_argv)

lemma invoked_steps_argv:
  "\<exists>xs. invoked (steps krun fs w) = invoked w @ xs \<and>
        (\<forall>iv\<in>set xs. \<exists>g\<in>set fs. argv iv = ''krun'' # args_of g)"
proof (induction fs arbitrary: w)
  case Nil
  show ?case by simp
next
  case (Cons g gs)
  from invoked_step_argv [of krun g w] obtain xs where
    xs: "invoked (step krun g w) = invoked w @ xs" "\<forall>iv\<in>set xs. argv iv = ''krun'' # args_of g"
    by blast
  from Cons.IH [of "step krun g w"] obtain ys where
    ys: "invoked (steps krun gs (step krun g w)) = invoked (step krun g w) @ ys"
      "\<forall>iv\<in>set ys. \<exists>h\<in>set gs. argv iv = ''krun'' # args_of h"
    by blast
  have "invoked (steps krun (g # gs) w) = invoked w @ (xs @ ys)"
    using xs(1) ys(1) by simp
  moreover have "\<forall>iv\<in>set (xs @ ys). \<exists>h\<in>set (g # gs). argv iv = ''krun'' # args_of h"
    using xs(2) ys(2) by auto
  ultimately show ?case by blast
qed

lemma slash_free_words:
  assumes "CHR ''/'' \<notin> set s" "x \<in> set (tokens s)"
  shows "x \<noteq> ''tests/'' @ f"
proof
  assume "x = ''tests/'' @ f"
  then have "CHR ''/'' \<in> set x" by simp
  with tokens_chars [OF assms(2)] assms(1) show False by auto
qed

lemma args_no_input:
  assumes g: "in_fragment g" "\<not> contains ''.out'' g" and f: "contains ''.out'' f"
  shows "''tests/'' @ f \<notin> set (''krun'' # args_of g)"
proof
  assume m: "''tests/'' @ f \<in> set (''krun'' # args_of g)"
  let ?a = "takeWhile (\<lambda>c. c \<noteq> CHR '' '') g"
  from in_fragment_chars [OF g(1)] have ns: "CHR ''/'' \<notin> set g" by simp
  have r1: "CHR ''/'' \<notin> set (dropWhile (\<lambda>c. c \<noteq> CHR '' '') g)"
    using ns by (auto dest: set_dropWhileD)
  have r2: "CHR ''/'' \<notin> set (dropWhile (\<lambda>c. c \<noteq> CHR '' '') (g @ ''.out''))"
    using ns by (auto dest!: set_dropWhileD)
  have "args_of g = ''--search'' # ((''tests/'' @ ?a) # tokens (dropWhile (\<lambda>c. c \<noteq> CHR '' '') g))
           @ tokens (dropWhile (\<lambda>c. c \<noteq> CHR '' '') (g @ ''.out''))"
    by (simp only: args_of_def T1_split)
  with m slash_free_words [OF r1, of "''tests/'' @ f" f] slash_free_words [OF r2, of "''tests/'' @ f" f]
  have "''tests/'' @ f = ''tests/'' @ ?a" by auto
  then have "f = ?a" by simp
  with f have "contains ''.out'' g" by (auto dest: contains_takeWhile)
  with g(2) show False by simp
qed


subsection \<open>The sample directory\<close>

lemma sample_tests: "tests (fresh sample sample_content) = Listing sample"
  by (simp add: fresh_def)

lemma sample_files: "files (fresh sample sample_content) = Inr [''a.test'', ''b.test'']"
  by code_simp


lemma sample_fragment: "list_all in_fragment [''a.test'', ''b.test'']"
  by code_simp

lemma sample_clear: "clear [''a.test'', ''b.test''] sample"
  by code_simp







section \<open>The claims\<close>

text \<open>
  C6. When \<^verbatim>\<open>tests\<close> does not exist, or exists and is not a directory, the run ends
  with the error of \<^verbatim>\<open>listdir\<close> and the world is the one it started in: no command
  line was issued, no process started, no file created.
\<close>

theorem enumeration_failure_changes_nothing:
  assumes "tests w = Missing \<or> tests w = NotDir"
  shows "script krun beyond w =
           (Inl (if tests w = Missing then FileNotFoundError else NotADirectoryError), w)"
  using assms by (auto simp: script_def files_def listdir_def TEST_DIR_def)

theorem enumeration_failure_changes_nothing_witness:
  "script None rejecting \<lparr>tests = Missing, content = holding [], calls = [], opened = [], invoked = []\<rparr> =
     (Inl FileNotFoundError, \<lparr>tests = Missing, content = holding [], calls = [], opened = [], invoked = []\<rparr>)"
  using enumeration_failure_changes_nothing
          [of "\<lparr>tests = Missing, content = holding [], calls = [], opened = [], invoked = []\<rparr>" None rejecting]
  by simp

text \<open>
  C7. Whatever the program does, absent or failing with any status, and whatever the
  shell returns, a run over a directory ends without an error and has issued the command
  line of every qualifying entry.
\<close>

theorem failures_do_not_stop_the_loop:
  assumes "tests w = Listing es"
  shows "fst (script krun beyond w) = Inr () \<and>
         (\<forall>f \<in> set (map fst es). isfile w (join TEST_DIR f) \<and> \<not> contains ''.out'' f \<longrightarrow>
            line f \<in> set (issued krun beyond w))"
  using issued_files [OF files_Inr [OF assms], of krun beyond]
  by (auto simp: script_def files_Inr [OF assms])

theorem failures_do_not_stop_the_loop_witness:
  "fst (script None rejecting (fresh [(''a.test'', Reg 0), (''b.test'', Reg 1)] [(0, ''1''), (1, ''2'')])) = Inr () \<and>
   line ''a.test'' \<in> set (issued None rejecting (fresh [(''a.test'', Reg 0), (''b.test'', Reg 1)] [(0, ''1''), (1, ''2'')])) \<and>
   line ''b.test'' \<in> set (issued None rejecting (fresh [(''a.test'', Reg 0), (''b.test'', Reg 1)] [(0, ''1''), (1, ''2'')]))"
proof -
  let ?es = "[(''a.test'', Reg 0), (''b.test'', Reg 1)]"
  let ?al = "[(0::nat, ''1''), (1, ''2'')]"
  have t: "tests (fresh ?es ?al) = Listing ?es" by (simp add: fresh_def)
  have a: "isfile (fresh ?es ?al) (join TEST_DIR ''a.test'') \<and> \<not> contains ''.out'' ''a.test''"
    by code_simp
  have b: "isfile (fresh ?es ?al) (join TEST_DIR ''b.test'') \<and> \<not> contains ''.out'' ''b.test''"
    by code_simp
  from failures_do_not_stop_the_loop [OF t, of None rejecting] a b show ?thesis by simp
qed

text \<open>
  C8. The command lines of a run are those of the qualifying entries of the listing read
  at the start, in its order, whatever happens to the directory during the loop; a name
  that was not in that listing, such as a file the run itself creates, gets no command
  line.
\<close>

theorem inputs_from_initial_snapshot:
  assumes "tests w = Listing es"
  shows "issued krun beyond w =
           map line (filter (\<lambda>f. isfile w (join TEST_DIR f) \<and> \<not> contains ''.out'' f) (map fst es)) \<and>
         (\<forall>n. n \<notin> fst ` set es \<longrightarrow> line n \<notin> set (issued krun beyond w))"
proof -
  let ?fs = "filter (\<lambda>f. isfile w (join TEST_DIR f) \<and> \<not> contains ''.out'' f) (map fst es)"
  have i: "issued krun beyond w = map line ?fs"
    by (rule issued_files [OF files_Inr [OF assms]])
  have "line n \<notin> set (map line ?fs)" if "n \<notin> fst ` set es" for n
  proof
    assume "line n \<in> set (map line ?fs)"
    then obtain g where "g \<in> set ?fs" "line n = line g" by auto
    with line_inj [of n g] that show False by auto
  qed
  with i show ?thesis by simp
qed

theorem inputs_from_initial_snapshot_witness:
  "issued (Some cat_program) rejecting (fresh [(''a b'', Reg 0)] [(0, ''1'')]) = [line ''a b''] \<and>
   line ''a'' \<notin> set (issued (Some cat_program) rejecting (fresh [(''a b'', Reg 0)] [(0, ''1'')])) \<and>
   isfile (snd (script (Some cat_program) rejecting (fresh [(''a b'', Reg 0)] [(0, ''1'')]))) (join TEST_DIR ''a'') \<and>
   \<not> contains ''.out'' ''a''"
proof -
  let ?es = "[(''a b'', Reg 0)]"
  let ?al = "[(0::nat, ''1'')]"
  have t: "tests (fresh ?es ?al) = Listing ?es" by (simp add: fresh_def)
  have q: "isfile (fresh ?es ?al) (join TEST_DIR ''a b'') \<and> \<not> contains ''.out'' ''a b''"
    by code_simp
  have n: "''a'' \<notin> fst ` set ?es" by simp
  have c: "isfile (snd (script (Some cat_program) rejecting (fresh ?es ?al))) (join TEST_DIR ''a'')"
    by code_simp
  note snap = inputs_from_initial_snapshot [OF t, of "Some cat_program" rejecting]
  from snap q have i: "issued (Some cat_program) rejecting (fresh ?es ?al) = [line ''a b'']"
    by simp
  from snap n have "line ''a'' \<notin> set (issued (Some cat_program) rejecting (fresh ?es ?al))"
    by blast
  with i c show ?thesis by simp
qed

text \<open>
  C10. The command line is the two interpolations of the name into the template, with
  nothing quoted. For a name with a space in it (and otherwise inert characters) the
  shell reads a command in which no argument is the path of the entry, and whose
  standard output does not go to that path followed by \<^verbatim>\<open>.out\<close>.
\<close>

theorem space_breaks_argument_and_redirection:
  assumes "in_fragment f" "CHR '' '' \<in> set f"
  shows "line f = ''krun --search tests/'' @ f @ '' > tests/'' @ f @ ''.out'' \<and>
         (\<exists>av tgt. sh_parse (line f) = Some (av, tgt) \<and>
            ''tests/'' @ f \<notin> set av \<and> tgt \<noteq> ''tests/'' @ f @ ''.out'')"
proof -
  have l: "line f = ''krun --search tests/'' @ f @ '' > tests/'' @ f @ ''.out''"
    by (simp add: line_def command_def TEST_DIR_def)
  have p: "sh_parse (line f) = Some (''krun'' # args_of f, ''tests/'' @ target_name f)"
    using assms(1) by (rule parse_fragment)
  have "CHR '' '' \<notin> set (target_name f)"
    by (auto simp: target_name_def dest: set_takeWhileD)
  with assms(2) have t: "''tests/'' @ target_name f \<noteq> ''tests/'' @ f @ ''.out''"
    by auto
  have "CHR '' '' \<notin> set x" if "x \<in> set (''krun'' # args_of f)" for x
    using that by (auto simp: args_of_def dest: tokens_no_space)
  with assms(2) have a: "''tests/'' @ f \<notin> set (''krun'' # args_of f)"
    by fastforce
  from l p t a show ?thesis by blast
qed

theorem space_breaks_argument_and_redirection_witness:
  "in_fragment ''a b'' \<and> CHR '' '' \<in> set ''a b'' \<and>
   (\<exists>av tgt. sh_parse (line ''a b'') = Some (av, tgt) \<and>
      ''tests/a b'' \<notin> set av \<and> tgt \<noteq> ''tests/a b.out'')"
proof -
  have f: "in_fragment ''a b''" by code_simp
  have s: "CHR '' '' \<in> set ''a b''" by simp
  from space_breaks_argument_and_redirection [OF f s]
  have "\<exists>av tgt. sh_parse (line ''a b'') = Some (av, tgt) \<and>
          ''tests/'' @ ''a b'' \<notin> set av \<and> tgt \<noteq> ''tests/'' @ ''a b'' @ ''.out''"
    by (rule conjunct2)
  then have "\<exists>av tgt. sh_parse (line ''a b'') = Some (av, tgt) \<and>
          ''tests/a b'' \<notin> set av \<and> tgt \<noteq> ''tests/a b.out''"
    by simp
  with f s show ?thesis by blast
qed

text \<open>
  The remaining claims are about what the shell does with the command line. They hold
  for names of inert characters and fail for a name the shell reads otherwise: one with
  a space, which it splits into words, or one with a pattern character. What they say
  of the output file also depends on what its path leads to. Each is proved in the
  form it holds in, for a run that stays inside the fragment of the shell modelled
  here, and refuted as stated.
\<close>




text \<open>
  C2, as amended. A directory entry whose name contains \<^verbatim>\<open>.out\<close> gets no command
  line, whatever the shell and the program do; and in a run that stays inside the
  fragment, its path is an argument of no process the run starts.
\<close>

theorem excluded_names_never_input:
  assumes "contains ''.out'' f"
  shows "line f \<notin> set (issued krun beyond w) \<and>
         (\<forall>es fs. tests w = Listing es \<and> files w = Inr fs \<and> list_all in_fragment fs \<and> clear fs es \<longrightarrow>
            (\<forall>iv\<in>set (drop (length (invoked w)) (invoked (snd (script krun beyond w)))).
               ''tests/'' @ f \<notin> set (argv iv)))"
proof -
  have a: "line f \<notin> set (issued krun beyond w)"
  proof (cases "files w")
    case (Inl e)
    then show ?thesis by (simp add: issued_error)
  next
    case (Inr fs)
    show ?thesis
    proof
      assume "line f \<in> set (issued krun beyond w)"
      then obtain g where "g \<in> set fs" "line f = line g"
        by (auto simp: issued_files [OF Inr])
      with files_sound [OF Inr, of g] line_inj [of f g] assms show False by simp
    qed
  qed
  have b: "''tests/'' @ f \<notin> set (argv iv)"
    if h: "tests w = Listing es" "files w = Inr fs" "list_all in_fragment fs" "clear fs es"
      and iv: "iv \<in> set (drop (length (invoked w)) (invoked (snd (script krun beyond w))))"
    for es fs iv
  proof -
    have w': "snd (script krun beyond w) = steps krun fs w"
      using h by (rule script_steps)
    from invoked_steps_argv [of krun fs w] obtain xs where
      "invoked (steps krun fs w) = invoked w @ xs"
      "\<forall>iv\<in>set xs. \<exists>g\<in>set fs. argv iv = ''krun'' # args_of g" by blast
    with iv obtain g where g: "g \<in> set fs" "argv iv = ''krun'' # args_of g"
      unfolding w' by auto
    from g(1) h(3) have "in_fragment g" by (simp add: list_all_iff)
    moreover from files_sound [OF h(2) g(1)] have "\<not> contains ''.out'' g" by simp
    ultimately show ?thesis
      unfolding g(2) using assms by (rule args_no_input)
  qed
  from a b show ?thesis by blast
qed

theorem excluded_names_never_input_witness:
  "contains ''.out'' ''a.test.out'' \<and>
   line ''a.test.out'' \<notin> set (issued (Some cat_program) rejecting (fresh sample sample_content)) \<and>
   \<not> (\<exists>iv\<in>set (drop (length (invoked (fresh sample sample_content)))
                   (invoked (snd (script (Some cat_program) rejecting (fresh sample sample_content))))).
         ''tests/a.test.out'' \<in> set (argv iv))"
proof -
  have h: "contains ''.out'' ''a.test.out''" by simp
  note t = excluded_names_never_input [OF h, of "Some cat_program" rejecting "fresh sample sample_content"]
  from t have a: "line ''a.test.out'' \<notin> set (issued (Some cat_program) rejecting (fresh sample sample_content))"
    by (rule conjunct1)
  from t sample_tests sample_files sample_fragment sample_clear
  have "\<forall>iv\<in>set (drop (length (invoked (fresh sample sample_content)))
                   (invoked (snd (script (Some cat_program) rejecting (fresh sample sample_content))))).
         ''tests/'' @ ''a.test.out'' \<notin> set (argv iv)"
    by blast
  then have "\<not> (\<exists>iv\<in>set (drop (length (invoked (fresh sample sample_content)))
                   (invoked (snd (script (Some cat_program) rejecting (fresh sample sample_content))))).
         ''tests/a.test.out'' \<in> set (argv iv))"
    by simp
  with h a show ?thesis by (intro conjI)
qed

text \<open>
  C2 as stated fails. Next to \<^verbatim>\<open>a.out\<close>, the input \<^verbatim>\<open>a?out\<close> has a command line
  in which the shell replaces the word \<^verbatim>\<open>tests/a?out\<close> by the paths that match it:
  the program is started with \<^verbatim>\<open>tests/a.out\<close> as the argument after \<^verbatim>\<open>--search\<close>.
\<close>

theorem excluded_name_reached_by_pattern:
  "contains ''.out'' ''a.out'' \<and>
   files (fresh [(''a.out'', Reg 0), (''a?out'', Reg 1)] [(0, ''old''), (1, ''in'')]) = Inr [''a?out''] \<and>
   invoked (snd (script (Some cat_program) (globbing (Some cat_program))
     (fresh [(''a.out'', Reg 0), (''a?out'', Reg 1)] [(0, ''old''), (1, ''in'')]))) =
     [\<lparr>argv = [''krun'', ''--search'', ''tests/a.out'', ''tests/a?out''],
       stdout_to = ''tests/a?out.out'', status = 0, captured = ''old''\<rparr>]"
  by code_simp













end
